theory Spec2Isabelle
  imports Main
begin

section \<open>The bounded-concurrency task limiter of applyEdits.ts\<close>

text \<open>
  The class \<^verbatim>\<open>Limiter<T>\<close> of
  \<^verbatim>\<open>extensions/codestory/src/server/applyEdits.ts\<close> queues promise factories and
  runs at most \<^verbatim>\<open>maxDegreeOfParalellism\<close> of them at a time. JavaScript runs
  each method and each promise reaction to completion on one thread, so an execution is a
  sequence of atomic events: a call of \<^verbatim>\<open>queue\<close>, \<^verbatim>\<open>clear\<close> or
  \<^verbatim>\<open>dispose\<close>, or the settling of the promise of a started task, which runs
  the two reactions that \<^verbatim>\<open>consume\<close> registered on it.

  Modelling decisions.
  \<^item> The counters are JavaScript numbers holding integers; they are \<open>int\<close> here, and
    so is the degree of parallelism (the data model of the specification calls it an
    integer).
  \<^item> A task (\<^verbatim>\<open>ITask<Promise<T>>\<close>) is opaque: calling it returns a promise; it
    neither throws synchronously nor calls back into the limiter. It is represented by
    the outcome with which that promise settles, if the scheduler ever settles it.
  \<^item> The promise that \<^verbatim>\<open>queue\<close> returns is identified by the number of
    submissions accepted before it; the callbacks \<^verbatim>\<open>c\<close> and \<^verbatim>\<open>e\<close>
    of an \<^verbatim>\<open>ILimitedTaskFactory\<close> resolve and reject that promise.
\<close>

subsection \<open>Data\<close>

text \<open>\<^verbatim>\<open>new Error('Object has been disposed')\<close>, the only exception the class throws.\<close>

datatype error = Error string

text \<open>How a promise settles: fulfilled with a value or rejected with a reason.\<close>

datatype ('v, 'e) outcome = Resolved 'v | Rejected 'e

text \<open>
  \<^verbatim>\<open>interface ILimitedTaskFactory<T> { factory; c; e }\<close>: \<open>factory\<close> is the task,
  and \<open>promiseId\<close> names the promise that \<^verbatim>\<open>c\<close> and \<^verbatim>\<open>e\<close> settle.
\<close>

record ('v, 'e) ILimitedTaskFactory =
  factory :: "('v, 'e) outcome"
  promiseId :: nat

text \<open>
  \<^verbatim>\<open>vscode.EventEmitter<void>\<close>, as far as the class can affect it: whether it has
  been disposed and how many events were fired on it.
\<close>

record EventEmitter =
  disposedEmitter :: bool
  fired :: nat

text \<open>
  The fields of the class (\<open>u_\<close> stands for the leading underscore of the source), followed
  by the part of the JavaScript heap that the class talks to:
  \<^item> \<open>submitted\<close>: the tasks of the accepted \<^verbatim>\<open>queue\<close> calls, in order; the
    \<open>k\<close>-th one returned promise \<open>k\<close>;
  \<^item> \<open>futures\<close>: the state of the promises returned by \<^verbatim>\<open>queue\<close>,
    \<open>None\<close> while pending;
  \<^item> \<open>inflight\<close>: the started tasks whose own promise has not settled yet;
  \<^item> \<open>startLog\<close>: the promise ids of the tasks in the order their factories were
    called;
  \<^item> \<open>peakRunning\<close>: the largest value ever written to \<open>runningPromises\<close> by
    an increment.
\<close>

record ('v, 'e) Limiter =
  u_size :: int
  u_isDisposed :: bool
  runningPromises :: int
  maxDegreeOfParalellism :: int
  outstandingPromises :: "('v, 'e) ILimitedTaskFactory list"
  u_onDrained :: EventEmitter
  submitted :: "('v, 'e) outcome list"
  futures :: "nat \<rightharpoonup> ('v, 'e) outcome"
  inflight :: "('v, 'e) ILimitedTaskFactory list"
  startLog :: "nat list"
  peakRunning :: int

subsection \<open>The methods\<close>

definition disposed_error :: error where
  "disposed_error = Error ''Object has been disposed''"

text \<open>The constructor.\<close>

definition new_Limiter :: "int \<Rightarrow> ('v, 'e) Limiter" where
  "new_Limiter n =
     \<lparr>u_size = 0, u_isDisposed = False, runningPromises = 0,
      maxDegreeOfParalellism = n, outstandingPromises = [],
      u_onDrained = \<lparr>disposedEmitter = False, fired = 0\<rparr>,
      submitted = [], futures = Map.empty, inflight = [], startLog = [],
      peakRunning = 0\<rparr>"

text \<open>\<^verbatim>\<open>get size()\<close>.\<close>

definition size_get :: "('v, 'e) Limiter \<Rightarrow> int" where
  "size_get w = u_size w"

text \<open>
  The loop condition of \<^verbatim>\<open>consume\<close>:
  \<^verbatim>\<open>this.outstandingPromises.length && this.runningPromises < this.maxDegreeOfParalellism\<close>.
\<close>

definition consume_cond :: "('v, 'e) Limiter \<Rightarrow> bool" where
  "consume_cond w \<longleftrightarrow>
     length (outstandingPromises w) \<noteq> 0 \<and> runningPromises w < maxDegreeOfParalellism w"

text \<open>
  The loop body: \<^verbatim>\<open>shift()\<close> the head, \<^verbatim>\<open>runningPromises++\<close>, call the
  factory and register the reactions on its promise (the task is in flight from now on).
  The body runs only under \<open>consume_cond\<close>; on an empty queue, where
  \<^verbatim>\<open>shift()!\<close> would yield \<^verbatim>\<open>undefined\<close>, the model changes nothing.
\<close>

definition consume_body :: "('v, 'e) Limiter \<Rightarrow> ('v, 'e) Limiter" where
  "consume_body w =
     (case outstandingPromises w of
        [] \<Rightarrow> w
      | iLimitedTask # rest \<Rightarrow>
          w\<lparr>outstandingPromises := rest,
            runningPromises := runningPromises w + 1,
            peakRunning := max (peakRunning w) (runningPromises w + 1),
            inflight := inflight w @ [iLimitedTask],
            startLog := startLog w @ [promiseId iLimitedTask]\<rparr>)"

function consume :: "('v, 'e) Limiter \<Rightarrow> ('v, 'e) Limiter" where
  "consume w = (if consume_cond w then consume (consume_body w) else w)"
  by pat_completeness auto
termination
  by (relation "measure (\<lambda>w. length (outstandingPromises w))")
     (auto simp: consume_cond_def consume_body_def split: list.splits)

declare consume.simps [simp del]

text \<open>
  \<^verbatim>\<open>consumed\<close>. The body of \<^verbatim>\<open>if (--this._size === 0)\<close> is a comment, so
  both branches continue alike.
\<close>

definition consumed :: "('v, 'e) Limiter \<Rightarrow> ('v, 'e) Limiter" where
  "consumed w =
     (if u_isDisposed w then w
      else
        let w1 = w\<lparr>runningPromises := runningPromises w - 1\<rparr>;
            w2 = w1\<lparr>u_size := u_size w1 - 1\<rparr>;
            w3 = (if u_size w2 = 0 then w2 else w2)
        in if length (outstandingPromises w3) > 0 then consume w3 else w3)"

text \<open>
  \<^verbatim>\<open>queue\<close>: throws on a disposed limiter; otherwise counts the task, creates the
  promise, pushes the task inside the promise's executor and drains. The result is the new
  promise and the new state.
\<close>

definition queue ::
  "('v, 'e) outcome \<Rightarrow> ('v, 'e) Limiter \<Rightarrow> error + (nat \<times> ('v, 'e) Limiter)" where
  "queue f w =
     (if u_isDisposed w then Inl disposed_error
      else
        let w1 = w\<lparr>u_size := u_size w + 1\<rparr>;
            p = length (submitted w1);
            w2 = w1\<lparr>submitted := submitted w1 @ [f]\<rparr>;
            w3 = w2\<lparr>outstandingPromises :=
                      outstandingPromises w2 @ [\<lparr>factory = f, promiseId = p\<rparr>]\<rparr>
        in Inr (p, consume w3))"

text \<open>\<^verbatim>\<open>clear\<close>.\<close>

definition clear :: "('v, 'e) Limiter \<Rightarrow> error + ('v, 'e) Limiter" where
  "clear w =
     (if u_isDisposed w then Inl disposed_error
      else Inr (w\<lparr>outstandingPromises := [], u_size := runningPromises w\<rparr>))"

text \<open>\<^verbatim>\<open>dispose\<close>.\<close>

definition dispose :: "('v, 'e) Limiter \<Rightarrow> ('v, 'e) Limiter" where
  "dispose w =
     w\<lparr>u_isDisposed := True, outstandingPromises := [], u_size := 0,
       u_onDrained := (u_onDrained w)\<lparr>disposedEmitter := True\<rparr>\<rparr>"

subsection \<open>Promise reactions and executions\<close>

text \<open>
  The promise of the started task \<open>k\<close> settles. The first reaction,
  \<^verbatim>\<open>promise.then(iLimitedTask.c, iLimitedTask.e)\<close>, settles promise \<open>k\<close> the same
  way; the second, \<^verbatim>\<open>promise.then(() => this.consumed(), () => this.consumed())\<close>,
  calls \<^verbatim>\<open>consumed\<close> in both cases. Nothing happens when \<open>k\<close> is not in flight.
\<close>

definition settle :: "nat \<Rightarrow> ('v, 'e) Limiter \<Rightarrow> ('v, 'e) Limiter" where
  "settle k w =
     (case find (\<lambda>t. promiseId t = k) (inflight w) of
        None \<Rightarrow> w
      | Some t \<Rightarrow>
          let w1 = w\<lparr>inflight := remove1 t (inflight w)\<rparr>;
              w2 = (case factory t of
                      Resolved v \<Rightarrow> w1\<lparr>futures := (futures w1)(k \<mapsto> Resolved v)\<rparr>
                    | Rejected x \<Rightarrow> w1\<lparr>futures := (futures w1)(k \<mapsto> Rejected x)\<rparr>)
          in consumed w2)"

text \<open>
  The events of an execution. A call that throws leaves the limiter as it was: both
  \<^verbatim>\<open>throw\<close> statements come before any assignment.
\<close>

datatype ('v, 'e) event = Queue "('v, 'e) outcome" | Clear | Dispose | Settle nat

definition apply_event :: "('v, 'e) Limiter \<Rightarrow> ('v, 'e) event \<Rightarrow> ('v, 'e) Limiter" where
  "apply_event w ev =
     (case ev of
        Queue f \<Rightarrow> (case queue f w of Inl _ \<Rightarrow> w | Inr (_, w') \<Rightarrow> w')
      | Clear \<Rightarrow> (case clear w of Inl _ \<Rightarrow> w | Inr w' \<Rightarrow> w')
      | Dispose \<Rightarrow> dispose w
      | Settle k \<Rightarrow> settle k w)"

definition run :: "('v, 'e) Limiter \<Rightarrow> ('v, 'e) event list \<Rightarrow> ('v, 'e) Limiter" where
  "run w evs = foldl apply_event w evs"

subsection \<open>Auxiliary definitions for the proofs\<close>

text \<open>
  How many tasks one call of \<^verbatim>\<open>consume\<close> starts: as many as are queued, or as many
  as there are free slots, whichever is less.
\<close>

definition drain_count :: "('v, 'e) Limiter \<Rightarrow> nat" where
  "drain_count w = min (length (outstandingPromises w)) (nat (maxDegreeOfParalellism w - runningPromises w))"

text \<open>
  The three groups of assignments that the events are made of: what \<^verbatim>\<open>queue\<close>
  does before draining, what the first reaction on a task's promise does, and what
  \<^verbatim>\<open>consumed\<close> does before draining.
\<close>

definition pushed :: "('v, 'e) outcome \<Rightarrow> ('v, 'e) Limiter \<Rightarrow> ('v, 'e) Limiter" where
  "pushed f w =
     w\<lparr>u_size := u_size w + 1, submitted := submitted w @ [f],
       outstandingPromises :=
         outstandingPromises w @ [\<lparr>factory = f, promiseId = length (submitted w)\<rparr>]\<rparr>"

definition reacted :: "('v, 'e) ILimitedTaskFactory \<Rightarrow> ('v, 'e) Limiter \<Rightarrow> ('v, 'e) Limiter" where
  "reacted t w =
     w\<lparr>inflight := remove1 t (inflight w),
       futures := (futures w)(promiseId t \<mapsto> factory t)\<rparr>"

definition released :: "('v, 'e) Limiter \<Rightarrow> ('v, 'e) Limiter" where
  "released w = w\<lparr>runningPromises := runningPromises w - 1, u_size := u_size w - 1\<rparr>"

text \<open>
  Invariants of the states an execution can reach. The counters: the running count and
  its peak stay under the ceiling (or at 0 when the ceiling is not positive); the running
  count is the number of tasks in flight until disposal, after which it is only an upper
  bound; the size is the queue length plus the running count until disposal; a non-empty
  queue means a live limiter with no free slot.
\<close>

definition bound_inv :: "('v, 'e) Limiter \<Rightarrow> bool" where
  "bound_inv w \<longleftrightarrow>
     runningPromises w \<le> max 0 (maxDegreeOfParalellism w) \<and>
     peakRunning w \<le> max 0 (maxDegreeOfParalellism w)"

definition inflight_inv :: "('v, 'e) Limiter \<Rightarrow> bool" where
  "inflight_inv w \<longleftrightarrow>
     int (length (inflight w)) \<le> runningPromises w \<and>
     (\<not> u_isDisposed w \<longrightarrow> runningPromises w = int (length (inflight w)))"

definition size_inv :: "('v, 'e) Limiter \<Rightarrow> bool" where
  "size_inv w \<longleftrightarrow>
     (\<not> u_isDisposed w \<longrightarrow>
        u_size w = int (length (outstandingPromises w)) + runningPromises w)"

definition drained_inv :: "('v, 'e) Limiter \<Rightarrow> bool" where
  "drained_inv w \<longleftrightarrow>
     (outstandingPromises w = [] \<or> maxDegreeOfParalellism w \<le> runningPromises w) \<and>
     (outstandingPromises w = [] \<or> \<not> u_isDisposed w)"

text \<open>
  The promise ids of the started tasks, in starting order, followed by those of the queued
  tasks, in queue order. They increase strictly and belong to accepted submissions.
\<close>

definition timeline :: "('v, 'e) Limiter \<Rightarrow> nat list" where
  "timeline w = startLog w @ map promiseId (outstandingPromises w)"

definition order_inv :: "('v, 'e) Limiter \<Rightarrow> bool" where
  "order_inv w \<longleftrightarrow>
     sorted_wrt (<) (timeline w) \<and> (\<forall>k \<in> set (timeline w). k < length (submitted w))"

text \<open>
  Every queued or started task carries the outcome that was submitted under its promise
  id; a task in flight has been started; a settled promise belongs to a started task and
  holds the outcome submitted under its id.
\<close>

definition promise_inv :: "('v, 'e) Limiter \<Rightarrow> bool" where
  "promise_inv w \<longleftrightarrow>
     (\<forall>t \<in> set (outstandingPromises w) \<union> set (inflight w).
        promiseId t < length (submitted w) \<and> factory t = submitted w ! promiseId t) \<and>
     (\<forall>t \<in> set (inflight w). promiseId t \<in> set (startLog w)) \<and>
     (\<forall>k \<in> dom (futures w).
        k \<in> set (startLog w) \<and> k < length (submitted w) \<and>
        futures w k = Some (submitted w ! k))"

text \<open>The states of a limiter whose degree of parallelism is not positive.\<close>

definition idle_inv :: "('v, 'e) Limiter \<Rightarrow> bool" where
  "idle_inv w \<longleftrightarrow>
     maxDegreeOfParalellism w \<le> 0 \<and> runningPromises w = 0 \<and> peakRunning w = 0 \<and>
     startLog w = [] \<and> inflight w = [] \<and> dom (futures w) = {}"

section \<open>Properties\<close>

subsection \<open>The loop of consume in closed form\<close>

lemma drain_count_body:
  "consume_cond w \<Longrightarrow> drain_count w = Suc (drain_count (consume_body w))"
  by (auto simp: consume_cond_def consume_body_def drain_count_def split: list.splits)

lemma drain_count_stop:
  "\<not> consume_cond w \<Longrightarrow> drain_count w = 0"
  by (auto simp: consume_cond_def drain_count_def)

lemma consume_stop: "\<not> consume_cond w \<Longrightarrow> consume w = w"
  by (subst consume.simps) simp

lemma consume_go: "consume_cond w \<Longrightarrow> consume w = consume (consume_body w)"
  by (subst consume.simps) simp

lemma consume_size: "u_size (consume w) = u_size w"
proof (induction w rule: consume.induct)
  case (1 w)
  then show ?case
    by (subst consume.simps) (simp add: consume_body_def split: list.splits)
qed

lemma consume_isDisposed: "u_isDisposed (consume w) = u_isDisposed w"
proof (induction w rule: consume.induct)
  case (1 w)
  then show ?case
    by (subst consume.simps) (simp add: consume_body_def split: list.splits)
qed

lemma consume_max: "maxDegreeOfParalellism (consume w) = maxDegreeOfParalellism w"
proof (induction w rule: consume.induct)
  case (1 w)
  then show ?case
    by (subst consume.simps) (simp add: consume_body_def split: list.splits)
qed

lemma consume_onDrained: "u_onDrained (consume w) = u_onDrained w"
proof (induction w rule: consume.induct)
  case (1 w)
  then show ?case
    by (subst consume.simps) (simp add: consume_body_def split: list.splits)
qed

lemma consume_submitted: "submitted (consume w) = submitted w"
proof (induction w rule: consume.induct)
  case (1 w)
  then show ?case
    by (subst consume.simps) (simp add: consume_body_def split: list.splits)
qed

lemma consume_futures: "futures (consume w) = futures w"
proof (induction w rule: consume.induct)
  case (1 w)
  then show ?case
    by (subst consume.simps) (simp add: consume_body_def split: list.splits)
qed

lemma consume_queue: "outstandingPromises (consume w) = drop (drain_count w) (outstandingPromises w)"
proof (induction w rule: consume.induct)
  case (1 w)
  show ?case
  proof (cases "consume_cond w")
    case True
    then show ?thesis using 1
      by (auto simp: consume_go drain_count_body consume_body_def consume_cond_def split: list.splits)
  next
    case False
    then show ?thesis by (simp add: drain_count_stop consume_stop)
  qed
qed

lemma consume_running: "runningPromises (consume w) = runningPromises w + int (drain_count w)"
proof (induction w rule: consume.induct)
  case (1 w)
  show ?case
  proof (cases "consume_cond w")
    case True
    then show ?thesis using 1
      by (auto simp: consume_go drain_count_body consume_body_def consume_cond_def split: list.splits)
  next
    case False
    then show ?thesis by (simp add: drain_count_stop consume_stop)
  qed
qed

lemma consume_inflight: "inflight (consume w) = inflight w @ take (drain_count w) (outstandingPromises w)"
proof (induction w rule: consume.induct)
  case (1 w)
  show ?case
  proof (cases "consume_cond w")
    case True
    then show ?thesis using 1
      by (auto simp: consume_go drain_count_body consume_body_def consume_cond_def split: list.splits)
  next
    case False
    then show ?thesis by (simp add: drain_count_stop consume_stop)
  qed
qed

lemma consume_startLog: "startLog (consume w) = startLog w @ map promiseId (take (drain_count w) (outstandingPromises w))"
proof (induction w rule: consume.induct)
  case (1 w)
  show ?case
  proof (cases "consume_cond w")
    case True
    then show ?thesis using 1
      by (auto simp: consume_go drain_count_body consume_body_def consume_cond_def split: list.splits)
  next
    case False
    then show ?thesis by (simp add: drain_count_stop consume_stop)
  qed
qed

lemma consume_peak: "peakRunning (consume w) =
   (if drain_count w = 0 then peakRunning w else max (peakRunning w) (runningPromises w + int (drain_count w)))"
proof (induction w rule: consume.induct)
  case (1 w)
  show ?case
  proof (cases "consume_cond w")
    case True
    then show ?thesis using 1
      by (auto simp: consume_go drain_count_body consume_body_def consume_cond_def max_def split: list.splits)
  next
    case False
    then show ?thesis by (simp add: drain_count_stop consume_stop)
  qed
qed

lemmas consume_fields = consume_size consume_isDisposed consume_max consume_onDrained
  consume_submitted consume_futures consume_queue consume_running consume_inflight
  consume_startLog consume_peak

subsection \<open>Executions\<close>

lemma find_Some_mem: "find P xs = Some x \<Longrightarrow> x \<in> set xs \<and> P x"
  by (induction xs) (auto split: if_splits)

lemma length_remove1_mem:
  "x \<in> set xs \<Longrightarrow> int (length (remove1 x xs)) = int (length xs) - 1"
proof -
  assume "x \<in> set xs"
  then have "0 < length xs" by (rule length_pos_if_in_set)
  then obtain n where "length xs = Suc n" by (cases "length xs") auto
  with \<open>x \<in> set xs\<close> show ?thesis by (simp add: length_remove1)
qed

text \<open>The fields that the loop never writes simplify away.\<close>

declare consume_size [simp] consume_isDisposed [simp] consume_max [simp]
  consume_onDrained [simp] consume_submitted [simp] consume_futures [simp]

lemma consume_gap:
  "runningPromises (consume w) - int (length (inflight (consume w))) =
   runningPromises w - int (length (inflight w))"
  by (simp add: consume_running consume_inflight drain_count_def)

lemma consume_load:
  "int (length (outstandingPromises (consume w))) + runningPromises (consume w) =
   int (length (outstandingPromises w)) + runningPromises w"
  by (simp add: consume_running consume_queue drain_count_def)

lemma consume_bound:
  "runningPromises w \<le> max 0 (maxDegreeOfParalellism w) \<Longrightarrow>
   runningPromises (consume w) \<le> max 0 (maxDegreeOfParalellism w)"
  by (auto simp: consume_running drain_count_def min_def)

lemma consume_peak_bound:
  "runningPromises w \<le> max 0 (maxDegreeOfParalellism w) \<Longrightarrow>
   peakRunning w \<le> max 0 (maxDegreeOfParalellism w) \<Longrightarrow>
   peakRunning (consume w) \<le> max 0 (maxDegreeOfParalellism w)"
  by (auto simp: consume_peak drain_count_def min_def)

lemma queue_eq:
  "queue f w =
     (if u_isDisposed w then Inl disposed_error
      else Inr (length (submitted w), consume (pushed f w)))"
  by (simp add: queue_def pushed_def Let_def)

lemma consumed_eq:
  "consumed w = (if u_isDisposed w then w else consume (released w))"
  by (simp add: consumed_def released_def Let_def consume_stop consume_cond_def)

lemma settle_eq:
  "settle k w =
     (case find (\<lambda>t. promiseId t = k) (inflight w) of
        None \<Rightarrow> w
      | Some t \<Rightarrow> consumed (reacted t w))"
  by (auto simp: settle_def reacted_def Let_def dest: find_Some_mem
      split: option.splits outcome.splits)

lemma run_Nil: "run w [] = w"
  by (simp add: run_def)

lemma run_snoc: "run w (evs @ [ev]) = apply_event (run w evs) ev"
  by (simp add: run_def)

lemma run_Cons: "run w (ev # evs) = run (apply_event w ev) evs"
  by (simp add: run_def)

lemma run_append: "run w (xs @ ys) = run (run w xs) ys"
  by (simp add: run_def)

lemma run_induct [consumes 0, case_names init queue clear dispose settle_disposed settle]:
  assumes init: "P w0"
    and queue: "\<And>w f. P w \<Longrightarrow> \<not> u_isDisposed w \<Longrightarrow> P (consume (pushed f w))"
    and clear: "\<And>w. P w \<Longrightarrow> \<not> u_isDisposed w \<Longrightarrow>
                  P (w\<lparr>outstandingPromises := [], u_size := runningPromises w\<rparr>)"
    and dispose: "\<And>w. P w \<Longrightarrow> P (dispose w)"
    and settle_disposed: "\<And>w t. P w \<Longrightarrow> t \<in> set (inflight w) \<Longrightarrow> u_isDisposed w \<Longrightarrow>
                  P (reacted t w)"
    and settle: "\<And>w t. P w \<Longrightarrow> t \<in> set (inflight w) \<Longrightarrow> \<not> u_isDisposed w \<Longrightarrow>
                  P (consume (released (reacted t w)))"
  shows "P (run w0 evs)"
proof (induction evs rule: rev_induct)
  case Nil
  show ?case using init by (simp add: run_Nil)
next
  case (snoc ev evs)
  let ?w = "run w0 evs"
  have step: "P (apply_event ?w ev)"
  proof (cases ev)
    case (Queue f)
    then show ?thesis using snoc queue [of ?w f]
      by (simp add: apply_event_def queue_eq)
  next
    case Clear
    then show ?thesis using snoc clear [of ?w]
      by (simp add: apply_event_def clear_def)
  next
    case Dispose
    then show ?thesis using snoc dispose [of ?w]
      by (simp add: apply_event_def)
  next
    case (Settle k)
    show ?thesis
    proof (cases "find (\<lambda>t. promiseId t = k) (inflight ?w)")
      case None
      then show ?thesis using snoc Settle by (simp add: apply_event_def settle_eq)
    next
      case (Some t)
      then have mem: "t \<in> set (inflight ?w)" by (simp add: find_Some_mem)
      have d: "u_isDisposed (reacted t ?w) = u_isDisposed ?w" by (simp add: reacted_def)
      show ?thesis
        using Some Settle settle_disposed [OF snoc mem] settle [OF snoc mem]
        by (simp add: apply_event_def settle_eq consumed_eq d)
    qed
  qed
  then show ?case by (simp add: run_snoc)
qed

subsection \<open>Counting invariants\<close>

lemma bound_inv_run: "bound_inv w0 \<Longrightarrow> bound_inv (run w0 evs)"
proof (induction rule: run_induct)
  case init then show ?case .
next
  case (queue w f) then show ?case
    using consume_bound [of "pushed f w"] consume_peak_bound [of "pushed f w"]
    by (simp add: bound_inv_def pushed_def)
next
  case (clear w) then show ?case by (simp add: bound_inv_def)
next
  case (dispose w) then show ?case by (simp add: bound_inv_def dispose_def)
next
  case (settle_disposed w t) then show ?case by (simp add: bound_inv_def reacted_def)
next
  case (settle w t) then show ?case
    using consume_bound [of "released (reacted t w)"]
      consume_peak_bound [of "released (reacted t w)"]
    by (simp add: bound_inv_def reacted_def released_def)
qed

lemma inflight_inv_run: "inflight_inv w0 \<Longrightarrow> inflight_inv (run w0 evs)"
proof (induction rule: run_induct)
  case init then show ?case .
next
  case (queue w f) then show ?case
    using consume_gap [of "pushed f w"]
    by (simp add: inflight_inv_def pushed_def)
next
  case (clear w) then show ?case by (simp add: inflight_inv_def)
next
  case (dispose w) then show ?case by (simp add: inflight_inv_def dispose_def)
next
  case (settle_disposed w t) then show ?case
    by (simp add: inflight_inv_def reacted_def length_remove1_mem)
next
  case (settle w t) then show ?case
    using consume_gap [of "released (reacted t w)"]
    by (simp add: inflight_inv_def reacted_def released_def length_remove1_mem)
qed

lemma size_inv_run: "size_inv w0 \<Longrightarrow> size_inv (run w0 evs)"
proof (induction rule: run_induct)
  case init then show ?case .
next
  case (queue w f) then show ?case
    using consume_load [of "pushed f w"]
    by (simp add: size_inv_def pushed_def)
next
  case (clear w) then show ?case by (simp add: size_inv_def)
next
  case (dispose w) then show ?case by (simp add: size_inv_def dispose_def)
next
  case (settle_disposed w t) then show ?case
    by (simp add: size_inv_def reacted_def)
next
  case (settle w t) then show ?case
    using consume_load [of "released (reacted t w)"]
    by (simp add: size_inv_def reacted_def released_def)
qed

lemma drained_consume:
  "outstandingPromises (consume w) = [] \<or>
   maxDegreeOfParalellism (consume w) \<le> runningPromises (consume w)"
  by (simp add: consume_queue consume_running drain_count_def min_def)

lemma drained_inv_run: "drained_inv w0 \<Longrightarrow> drained_inv (run w0 evs)"
proof (induction rule: run_induct)
  case init then show ?case .
next
  case (queue w f) then show ?case
    using drained_consume [of "pushed f w"]
    by (simp add: drained_inv_def pushed_def)
next
  case (clear w) then show ?case by (simp add: drained_inv_def)
next
  case (dispose w) then show ?case by (simp add: drained_inv_def dispose_def)
next
  case (settle_disposed w t) then show ?case
    by (simp add: drained_inv_def reacted_def)
next
  case (settle w t) then show ?case
    using drained_consume [of "released (reacted t w)"]
    by (simp add: drained_inv_def reacted_def released_def)
qed

lemma fired_run: "fired (u_onDrained (run w0 evs)) = fired (u_onDrained w0)"
proof (induction rule: run_induct)
  case init show ?case by simp
next
  case (queue w f) then show ?case by (simp add: pushed_def)
next
  case (clear w) then show ?case by simp
next
  case (dispose w) then show ?case by (simp add: dispose_def)
next
  case (settle_disposed w t) then show ?case by (simp add: reacted_def)
next
  case (settle w t) then show ?case by (simp add: reacted_def released_def)
qed

lemma disposed_run: "u_isDisposed w0 \<Longrightarrow> u_isDisposed (run w0 evs)"
proof (induction rule: run_induct)
  case init then show ?case .
next
  case (queue w f) then show ?case by (simp add: pushed_def)
next
  case (clear w) then show ?case by simp
next
  case (dispose w) then show ?case by (simp add: dispose_def)
next
  case (settle_disposed w t) then show ?case by (simp add: reacted_def)
next
  case (settle w t) then show ?case by (simp add: reacted_def released_def)
qed

lemma max_run: "maxDegreeOfParalellism (run w0 evs) = maxDegreeOfParalellism w0"
proof (induction rule: run_induct)
  case init show ?case by simp
next
  case (queue w f) then show ?case by (simp add: pushed_def)
next
  case (clear w) then show ?case by simp
next
  case (dispose w) then show ?case by (simp add: dispose_def)
next
  case (settle_disposed w t) then show ?case by (simp add: reacted_def)
next
  case (settle w t) then show ?case by (simp add: reacted_def released_def)
qed

subsection \<open>The assignments of an event, field by field\<close>

lemma pushed_simps [simp]:
  "u_size (pushed f w) = u_size w + 1"
  "u_isDisposed (pushed f w) = u_isDisposed w"
  "runningPromises (pushed f w) = runningPromises w"
  "maxDegreeOfParalellism (pushed f w) = maxDegreeOfParalellism w"
  "outstandingPromises (pushed f w) =
     outstandingPromises w @ [\<lparr>factory = f, promiseId = length (submitted w)\<rparr>]"
  "u_onDrained (pushed f w) = u_onDrained w"
  "submitted (pushed f w) = submitted w @ [f]"
  "futures (pushed f w) = futures w"
  "inflight (pushed f w) = inflight w"
  "startLog (pushed f w) = startLog w"
  "peakRunning (pushed f w) = peakRunning w"
  by (simp_all add: pushed_def)

lemma reacted_simps [simp]:
  "u_size (reacted t w) = u_size w"
  "u_isDisposed (reacted t w) = u_isDisposed w"
  "runningPromises (reacted t w) = runningPromises w"
  "maxDegreeOfParalellism (reacted t w) = maxDegreeOfParalellism w"
  "outstandingPromises (reacted t w) = outstandingPromises w"
  "u_onDrained (reacted t w) = u_onDrained w"
  "submitted (reacted t w) = submitted w"
  "futures (reacted t w) = (futures w)(promiseId t \<mapsto> factory t)"
  "inflight (reacted t w) = remove1 t (inflight w)"
  "startLog (reacted t w) = startLog w"
  "peakRunning (reacted t w) = peakRunning w"
  by (simp_all add: reacted_def)

lemma released_simps [simp]:
  "u_size (released w) = u_size w - 1"
  "u_isDisposed (released w) = u_isDisposed w"
  "runningPromises (released w) = runningPromises w - 1"
  "maxDegreeOfParalellism (released w) = maxDegreeOfParalellism w"
  "outstandingPromises (released w) = outstandingPromises w"
  "u_onDrained (released w) = u_onDrained w"
  "submitted (released w) = submitted w"
  "futures (released w) = futures w"
  "inflight (released w) = inflight w"
  "startLog (released w) = startLog w"
  "peakRunning (released w) = peakRunning w"
  by (simp_all add: released_def)

lemma dispose_simps [simp]:
  "u_size (dispose w) = 0"
  "u_isDisposed (dispose w) = True"
  "runningPromises (dispose w) = runningPromises w"
  "maxDegreeOfParalellism (dispose w) = maxDegreeOfParalellism w"
  "outstandingPromises (dispose w) = []"
  "disposedEmitter (u_onDrained (dispose w)) = True"
  "fired (u_onDrained (dispose w)) = fired (u_onDrained w)"
  "submitted (dispose w) = submitted w"
  "futures (dispose w) = futures w"
  "inflight (dispose w) = inflight w"
  "startLog (dispose w) = startLog w"
  "peakRunning (dispose w) = peakRunning w"
  by (simp_all add: dispose_def)

subsection \<open>Submission order and the promises\<close>

lemma consume_timeline: "timeline (consume w) = timeline w"
proof -
  have "map promiseId (take n xs) @ map promiseId (drop n xs) = map promiseId xs" for n xs
    by (simp flip: map_append)
  then show ?thesis by (simp add: timeline_def consume_startLog consume_queue)
qed

lemma consume_tasks:
  "set (outstandingPromises (consume w)) \<union> set (inflight (consume w)) =
   set (outstandingPromises w) \<union> set (inflight w)"
proof -
  have "set (take (drain_count w) (outstandingPromises w)) \<union>
        set (drop (drain_count w) (outstandingPromises w)) = set (outstandingPromises w)"
    by (simp flip: set_append)
  then show ?thesis
    by (simp add: consume_inflight consume_queue) blast
qed

lemma timeline_simps [simp]:
  "timeline (pushed f w) = timeline w @ [length (submitted w)]"
  "timeline (reacted t w) = timeline w"
  "timeline (released w) = timeline w"
  "timeline (dispose w) = startLog w"
  "timeline (w\<lparr>outstandingPromises := [], u_size := s\<rparr>) = startLog w"
  by (simp_all add: timeline_def pushed_def reacted_def released_def dispose_def)

lemma order_inv_prefix:
  "order_inv w \<Longrightarrow> sorted_wrt (<) (startLog w) \<and> (\<forall>k \<in> set (startLog w). k < length (submitted w))"
  by (simp add: order_inv_def timeline_def sorted_wrt_append)

lemma order_inv_queue: "order_inv w \<Longrightarrow> order_inv (consume (pushed f w))"
  by (auto simp: order_inv_def consume_timeline sorted_wrt_append less_SucI)

lemma order_inv_clear:
  "order_inv w \<Longrightarrow> order_inv (w\<lparr>outstandingPromises := [], u_size := s\<rparr>)"
  using order_inv_prefix [of w] by (simp add: order_inv_def)

lemma order_inv_dispose: "order_inv w \<Longrightarrow> order_inv (dispose w)"
  using order_inv_prefix [of w] by (simp add: order_inv_def)

lemma order_inv_reacted: "order_inv w \<Longrightarrow> order_inv (reacted t w)"
  by (simp add: order_inv_def)

lemma order_inv_settle: "order_inv w \<Longrightarrow> order_inv (consume (released (reacted t w)))"
  by (simp add: order_inv_def consume_timeline)

lemma order_inv_run: "order_inv w0 \<Longrightarrow> order_inv (run w0 evs)"
proof (induction rule: run_induct)
  case init then show ?case .
next
  case (queue w f) then show ?case by (simp add: order_inv_queue)
next
  case (clear w) then show ?case by (simp add: order_inv_clear)
next
  case (dispose w) then show ?case by (simp add: order_inv_dispose)
next
  case (settle_disposed w t) then show ?case by (simp add: order_inv_reacted)
next
  case (settle w t) then show ?case by (simp add: order_inv_settle)
qed

lemma promise_inv_queue: "promise_inv w \<Longrightarrow> promise_inv (consume (pushed f w))"
proof -
  assume inv: "promise_inv w"
  let ?v = "pushed f w" and ?w' = "consume (pushed f w)"
  have tasks: "\<forall>t \<in> set (outstandingPromises ?w') \<union> set (inflight ?w').
      promiseId t < length (submitted ?w') \<and> factory t = submitted ?w' ! promiseId t"
    using inv unfolding consume_tasks promise_inv_def
    by (auto simp: nth_append less_SucI)
  have started: "\<forall>t \<in> set (inflight ?w'). promiseId t \<in> set (startLog ?w')"
    using inv unfolding promise_inv_def
    by (auto simp: consume_inflight consume_startLog)
  have settled: "\<forall>k \<in> dom (futures ?w').
      k \<in> set (startLog ?w') \<and> k < length (submitted ?w') \<and>
      futures ?w' k = Some (submitted ?w' ! k)"
    using inv unfolding promise_inv_def
    by (auto simp: consume_startLog nth_append less_SucI)
  from tasks started settled show ?thesis unfolding promise_inv_def by blast
qed

lemma promise_inv_clear:
  "promise_inv w \<Longrightarrow> promise_inv (w\<lparr>outstandingPromises := [], u_size := s\<rparr>)"
  by (simp add: promise_inv_def)

lemma promise_inv_dispose: "promise_inv w \<Longrightarrow> promise_inv (dispose w)"
  by (simp add: promise_inv_def)

lemma promise_inv_reacted:
  assumes inv: "promise_inv w" and mem: "t \<in> set (inflight w)"
  shows "promise_inv (reacted t w)"
proof -
  from inv mem have own: "promiseId t \<in> set (startLog w)"
      "promiseId t < length (submitted w)" "factory t = submitted w ! promiseId t"
    by (simp_all add: promise_inv_def)
  have sub: "set (remove1 t (inflight w)) \<subseteq> set (inflight w)" by (rule set_remove1_subset)
  show ?thesis using inv own sub unfolding promise_inv_def
    by (auto simp: dom_def)
qed

lemma promise_inv_released: "promise_inv w \<Longrightarrow> promise_inv (consume (released w))"
proof -
  assume inv: "promise_inv w"
  let ?w' = "consume (released w)"
  have tasks: "\<forall>t \<in> set (outstandingPromises ?w') \<union> set (inflight ?w').
      promiseId t < length (submitted ?w') \<and> factory t = submitted ?w' ! promiseId t"
    using inv unfolding consume_tasks promise_inv_def by simp
  have started: "\<forall>t \<in> set (inflight ?w'). promiseId t \<in> set (startLog ?w')"
    using inv unfolding promise_inv_def
    by (auto simp: consume_inflight consume_startLog)
  have settled: "\<forall>k \<in> dom (futures ?w').
      k \<in> set (startLog ?w') \<and> k < length (submitted ?w') \<and>
      futures ?w' k = Some (submitted ?w' ! k)"
    using inv unfolding promise_inv_def
    by (auto simp: consume_startLog)
  from tasks started settled show ?thesis unfolding promise_inv_def by blast
qed

lemma promise_inv_run: "promise_inv w0 \<Longrightarrow> promise_inv (run w0 evs)"
proof (induction rule: run_induct)
  case init then show ?case .
next
  case (queue w f) then show ?case by (simp add: promise_inv_queue)
next
  case (clear w) then show ?case by (simp add: promise_inv_clear)
next
  case (dispose w) then show ?case by (simp add: promise_inv_dispose)
next
  case (settle_disposed w t) then show ?case by (simp add: promise_inv_reacted)
next
  case (settle w t) then show ?case by (simp add: promise_inv_reacted promise_inv_released)
qed

subsection \<open>What no continuation can change\<close>

lemma unstarted_run:
  assumes "k < length (submitted w0)" and "k \<notin> set (timeline w0)"
  shows "k < length (submitted (run w0 evs)) \<and> k \<notin> set (timeline (run w0 evs))"
proof (induction rule: run_induct)
  case init from assms show ?case by simp
next
  case (queue w f) then show ?case by (auto simp: consume_timeline)
next
  case (clear w) then show ?case by (simp add: timeline_def)
next
  case (dispose w) then show ?case by (simp add: timeline_def)
next
  case (settle_disposed w t) then show ?case by simp
next
  case (settle w t) then show ?case by (simp add: consume_timeline)
qed

lemma pending_forever:
  assumes "promise_inv w0" and "k < length (submitted w0)" and "k \<notin> set (timeline w0)"
  shows "futures (run w0 evs) k = None"
proof (rule ccontr)
  assume "futures (run w0 evs) k \<noteq> None"
  then have "k \<in> dom (futures (run w0 evs))" by (simp add: dom_def)
  with promise_inv_run [OF assms(1), of evs] have "k \<in> set (startLog (run w0 evs))"
    by (simp add: promise_inv_def)
  then have "k \<in> set (timeline (run w0 evs))" by (simp add: timeline_def)
  with unstarted_run [OF assms(2,3), of evs] show False by simp
qed

lemma settled_stable:
  assumes "promise_inv w0" and "futures w0 k = Some r"
  shows "futures (run w0 evs) k = Some r"
proof -
  have react: "futures (reacted t w) k = Some r"
    if "promise_inv w" "futures w k = Some r" "t \<in> set (inflight w)" for w t
  proof (cases "promiseId t = k")
    case True
    from that(1,2) have "r = submitted w ! k" by (auto simp: promise_inv_def dom_def)
    moreover from that(1,3) True have "factory t = submitted w ! k"
      by (auto simp: promise_inv_def)
    ultimately show ?thesis using True by simp
  next
    case False
    with that(2) show ?thesis by simp
  qed
  have "promise_inv (run w0 evs) \<and> futures (run w0 evs) k = Some r"
  proof (induction rule: run_induct)
    case init from assms show ?case by simp
  next
    case (queue w f) then show ?case by (simp add: promise_inv_queue)
  next
    case (clear w) then show ?case by (simp add: promise_inv_clear)
  next
    case (dispose w) then show ?case by (simp add: promise_inv_dispose)
  next
    case (settle_disposed w t)
    then show ?case using react [of w t] by (simp add: promise_inv_reacted del: reacted_simps)
  next
    case (settle w t)
    then have "promise_inv (reacted t w)" "futures (reacted t w) k = Some r"
      using react [of w t] by (simp_all add: promise_inv_reacted del: reacted_simps)
    then show ?case by (simp add: promise_inv_released)
  qed
  then show ?thesis by simp
qed

lemma sorted_before:
  assumes "sorted_wrt (<) (xs :: nat list)" and "a \<in> set xs" and "b \<in> set xs" and "a < b"
  shows "\<exists>ps qs rs. xs = ps @ a # qs @ b # rs"
proof -
  from assms(2) obtain ps rest where xs: "xs = ps @ a # rest" by (auto dest: split_list)
  from assms(1) xs have "\<forall>x \<in> set ps. x < a" by (auto simp: sorted_wrt_append)
  with assms(3,4) xs have "b \<in> set rest" by auto
  then obtain qs rs where "rest = qs @ b # rs" by (auto dest: split_list)
  with xs show ?thesis by blast
qed

lemma started_not_queued:
  assumes "order_inv w" and "b \<in> set (startLog w)" and "a \<in> set (timeline w)" and "a < b"
  shows "a \<in> set (startLog w)"
proof (rule ccontr)
  assume "a \<notin> set (startLog w)"
  with assms(3) have "a \<in> set (map promiseId (outstandingPromises w))"
    by (simp add: timeline_def)
  with assms(1,2) have "b < a" by (auto simp: order_inv_def timeline_def sorted_wrt_append)
  with assms(4) show False by simp
qed

lemma startLog_timeline: "x \<in> set (startLog w) \<Longrightarrow> x \<in> set (timeline w)"
  by (simp add: timeline_def)

lemma fifo_run:
  assumes ord: "order_inv w0" and lt: "a < b"
    and qa: "a \<in> set (timeline w0)" and qb: "b \<in> set (timeline w0)"
    and started: "b \<in> set (startLog (run w0 evs))"
  shows "\<exists>ps qs rs. startLog (run w0 evs) = ps @ a # qs @ b # rs"
proof -
  let ?P = "\<lambda>w. order_inv w \<and> b < length (submitted w) \<and>
                 (b \<in> set (timeline w) \<longrightarrow> a \<in> set (timeline w))"
  have "?P (run w0 evs)"
  proof (induction rule: run_induct)
    case init from ord qa qb show ?case by (simp add: order_inv_def)
  next
    case (queue w f) then show ?case by (auto simp: order_inv_queue consume_timeline)
  next
    case (clear w)
    then show ?case using started_not_queued [of w b a] startLog_timeline [of b w] lt
      by (auto simp: order_inv_clear)
  next
    case (dispose w)
    then show ?case using started_not_queued [of w b a] startLog_timeline [of b w] lt
      by (auto simp: order_inv_dispose)
  next
    case (settle_disposed w t) then show ?case by (simp add: order_inv_reacted)
  next
    case (settle w t) then show ?case by (simp add: order_inv_settle consume_timeline)
  qed
  with started have inv: "order_inv (run w0 evs)" and "a \<in> set (timeline (run w0 evs))"
    by (simp_all add: timeline_def)
  with started lt have "a \<in> set (startLog (run w0 evs))"
    by (simp add: started_not_queued)
  with order_inv_prefix [OF inv] started lt show ?thesis
    by (simp add: sorted_before)
qed

lemma order_inv_new: "order_inv (new_Limiter n)"
  by (simp add: order_inv_def timeline_def new_Limiter_def)

lemma promise_inv_new: "promise_inv (new_Limiter n)"
  by (simp add: promise_inv_def new_Limiter_def)

text \<open>Rules that evaluate an execution given event by event.\<close>

lemmas run_eval = run_Cons run_Nil apply_event_def queue_eq settle_eq consumed_eq clear_def
  consume_queue consume_running consume_inflight consume_startLog consume_peak drain_count_def
  new_Limiter_def

subsection \<open>A limiter that starts nothing\<close>

lemma idle_inv_run: "idle_inv w0 \<Longrightarrow> idle_inv (run w0 evs)"
proof (induction rule: run_induct)
  case init then show ?case .
next
  case (queue w f) then show ?case
    by (simp add: idle_inv_def consume_running consume_peak consume_startLog consume_inflight
        drain_count_def)
next
  case (clear w) then show ?case by (simp add: idle_inv_def)
next
  case (dispose w) then show ?case by (simp add: idle_inv_def)
next
  case (settle_disposed w t) then show ?case by (simp add: idle_inv_def)
next
  case (settle w t) then show ?case by (simp add: idle_inv_def)
qed

subsection \<open>The initial state and single completions\<close>

lemma count_inv_new:
  "bound_inv (new_Limiter n)" "inflight_inv (new_Limiter n)"
  "size_inv (new_Limiter n)" "drained_inv (new_Limiter n)"
  by (simp_all add: bound_inv_def inflight_inv_def size_inv_def drained_inv_def new_Limiter_def)

lemma queued_not_started:
  assumes "order_inv w" and "t \<in> set (outstandingPromises w)"
  shows "promiseId t \<notin> set (startLog w) \<and> promiseId t < length (submitted w)"
proof -
  from assms have "\<forall>x \<in> set (startLog w). x < promiseId t"
    by (auto simp: order_inv_def timeline_def sorted_wrt_append)
  moreover from assms have "promiseId t < length (submitted w)"
    by (auto simp: order_inv_def timeline_def)
  ultimately show ?thesis by auto
qed

lemma settle_as_run: "settle k w = run w [Settle k]"
  by (simp add: run_Cons run_Nil apply_event_def)

lemma settle_futures:
  assumes "find (\<lambda>t. promiseId t = k) (inflight w) = Some t'"
  shows "futures (settle k w) = (futures w)(k \<mapsto> factory t')"
proof -
  from find_Some_mem [OF assms] have "promiseId t' = k" by simp
  with assms show ?thesis by (simp add: settle_eq consumed_eq)
qed

lemma settle_delivers:
  assumes inv: "promise_inv w" and mem: "t \<in> set (inflight w)"
  shows "futures (run (settle (promiseId t) w) evs') (promiseId t) = Some (factory t)"
proof -
  let ?k = "promiseId t"
  from mem have "find (\<lambda>t'. promiseId t' = ?k) (inflight w) \<noteq> None"
    by (auto simp: find_None_iff)
  then obtain t' where found: "find (\<lambda>t'. promiseId t' = ?k) (inflight w) = Some t'"
    by blast
  from find_Some_mem [OF found] have t': "t' \<in> set (inflight w)" "promiseId t' = ?k"
    by simp_all
  from inv mem t' have same: "factory t' = factory t" by (simp add: promise_inv_def)
  have now: "futures (settle ?k w) ?k = Some (factory t)"
    by (simp add: settle_futures [OF found] same)
  have "promise_inv (settle ?k w)" unfolding settle_as_run using inv by (rule promise_inv_run)
  then show ?thesis using now by (rule settled_stable)
qed

section \<open>The claims\<close>

subsection \<open>The concurrency ceiling\<close>

text \<open>
  Claim C1. A limiter constructed with a degree of parallelism \<open>n \<ge> 1\<close> never has more
  than \<open>n\<close> running tasks, whatever is submitted and whatever else happens: after every
  event the counter \<open>runningPromises\<close> is at most \<open>n\<close>, every value an increment ever
  wrote to it (\<open>peakRunning\<close>, which covers the states inside the loop of
  \<^verbatim>\<open>consume\<close>) is at most \<open>n\<close>, and the number of tasks really in flight is at
  most \<open>n\<close>.
\<close>

theorem running_never_exceeds_max:
  assumes "1 \<le> n"
  shows "runningPromises (run (new_Limiter n) evs) \<le> n \<and>
         peakRunning (run (new_Limiter n) evs) \<le> n \<and>
         int (length (inflight (run (new_Limiter n) evs))) \<le> n"
proof -
  let ?w = "run (new_Limiter n) evs"
  have "bound_inv (new_Limiter n)" by (simp add: bound_inv_def new_Limiter_def)
  then have b: "bound_inv ?w" by (rule bound_inv_run)
  have "inflight_inv (new_Limiter n)" by (simp add: inflight_inv_def new_Limiter_def)
  then have i: "inflight_inv ?w" by (rule inflight_inv_run)
  have m: "maxDegreeOfParalellism ?w = n" by (simp add: max_run new_Limiter_def)
  from b i m assms show ?thesis by (simp add: bound_inv_def inflight_inv_def)
qed

theorem running_never_exceeds_max_witness:
  "(1::int) \<le> 2 \<and>
   runningPromises (run (new_Limiter 2 :: (nat, string) Limiter)
     [Queue (Resolved 1), Queue (Rejected ''boom''), Queue (Resolved 3), Settle 1]) \<le> 2 \<and>
   peakRunning (run (new_Limiter 2 :: (nat, string) Limiter)
     [Queue (Resolved 1), Queue (Rejected ''boom''), Queue (Resolved 3), Settle 1]) \<le> 2 \<and>
   int (length (inflight (run (new_Limiter 2 :: (nat, string) Limiter)
     [Queue (Resolved 1), Queue (Rejected ''boom''), Queue (Resolved 3), Settle 1]))) \<le> 2"
  using running_never_exceeds_max [of 2
      "[Queue (Resolved 1), Queue (Rejected ''boom''), Queue (Resolved 3), Settle 1]
         :: (nat, string) event list"]
  by simp

subsection \<open>First in, first out\<close>

text \<open>
  Claim C2. Promise ids count the accepted submissions, so \<open>a < b\<close> says that task \<open>a\<close>
  was submitted before task \<open>b\<close>. If both are in the pending queue at some moment of an
  execution and \<open>b\<close> has been started at a later moment, then \<open>a\<close> was started too, and
  before \<open>b\<close>: the start log reads \<open>\<dots> a \<dots> b \<dots>\<close>. Nothing is said about the order in
  which started tasks complete; \<open>completion_order_is_free\<close> below shows an execution in
  which the task started second completes first.
\<close>

theorem queued_tasks_start_in_submission_order:
  assumes "a \<in> promiseId ` set (outstandingPromises (run (new_Limiter n) evs))"
    and "b \<in> promiseId ` set (outstandingPromises (run (new_Limiter n) evs))"
    and "a < b"
    and "b \<in> set (startLog (run (run (new_Limiter n) evs) evs'))"
  shows "\<exists>ps qs rs. startLog (run (run (new_Limiter n) evs) evs') = ps @ a # qs @ b # rs"
proof -
  have ord: "order_inv (run (new_Limiter n) evs)" by (simp add: order_inv_run order_inv_new)
  from assms(1,2) have q: "a \<in> set (timeline (run (new_Limiter n) evs))"
      "b \<in> set (timeline (run (new_Limiter n) evs))"
    by (simp_all add: timeline_def)
  show ?thesis by (rule fifo_run [OF ord assms(3) q assms(4)])
qed

theorem queued_tasks_start_in_submission_order_witness:
  "(1::nat) \<in> promiseId ` set (outstandingPromises (run (new_Limiter 1 :: (nat, string) Limiter)
       [Queue (Resolved 1), Queue (Rejected ''boom''), Queue (Resolved 3)])) \<and>
   (2::nat) \<in> promiseId ` set (outstandingPromises (run (new_Limiter 1 :: (nat, string) Limiter)
       [Queue (Resolved 1), Queue (Rejected ''boom''), Queue (Resolved 3)])) \<and>
   (1::nat) < 2 \<and>
   (2::nat) \<in> set (startLog (run (run (new_Limiter 1 :: (nat, string) Limiter)
       [Queue (Resolved 1), Queue (Rejected ''boom''), Queue (Resolved 3)])
       [Settle 0, Settle 1])) \<and>
   (\<exists>ps qs rs. startLog (run (run (new_Limiter 1 :: (nat, string) Limiter)
       [Queue (Resolved 1), Queue (Rejected ''boom''), Queue (Resolved 3)])
       [Settle 0, Settle 1]) = ps @ 1 # qs @ 2 # rs)"
proof -
  let ?w = "run (new_Limiter 1 :: (nat, string) Limiter)
       [Queue (Resolved 1), Queue (Rejected ''boom''), Queue (Resolved 3)]"
  have a: "(1::nat) \<in> promiseId ` set (outstandingPromises ?w)" by (simp add: run_eval)
  have b: "(2::nat) \<in> promiseId ` set (outstandingPromises ?w)" by (simp add: run_eval)
  have lt: "(1::nat) < 2" by simp
  have started: "(2::nat) \<in> set (startLog (run ?w [Settle 0, Settle 1]))"
    by (simp add: run_eval)
  from a b lt started queued_tasks_start_in_submission_order [OF a b lt started]
  show ?thesis by blast
qed

lemma completion_order_is_free:
  "startLog (run (new_Limiter 2) [Queue a, Queue b, Settle 1]) = [0, 1] \<and>
   futures (run (new_Limiter 2) [Queue a, Queue b, Settle 1]) 1 = Some b \<and>
   futures (run (new_Limiter 2) [Queue a, Queue b, Settle 1]) 0 = None \<and>
   futures (run (new_Limiter 2) [Queue a, Queue b, Settle 1, Settle 0]) 0 = Some a"
  by (simp add: run_eval)

subsection \<open>The drain step\<close>

text \<open>
  Claim C3, amended: the statement holds for a limiter that has not been disposed. There,
  when the promise of a started task \<open>t\<close> settles, fulfilled or rejected alike, the
  promise returned for it settles the same way, the running count and the size are
  decremented and \<^verbatim>\<open>consume\<close> runs; afterwards the queue is empty or the running
  count has reached the ceiling. One call of \<^verbatim>\<open>consume\<close> on any state \<open>v\<close>
  does nothing when the queue is empty or the running count is not below the ceiling;
  otherwise it removes the head of the queue, increments the running count, starts that
  task and repeats; it stops with the queue empty or the ceiling reached.
\<close>

theorem drain_step_of_live_limiter:
  assumes "\<not> u_isDisposed w"
    and "find (\<lambda>t. promiseId t = k) (inflight w) = Some t"
  shows "settle k w =
           consume (w\<lparr>inflight := remove1 t (inflight w),
                      futures := (futures w)(k \<mapsto> factory t),
                      runningPromises := runningPromises w - 1,
                      u_size := u_size w - 1\<rparr>) \<and>
         (outstandingPromises (settle k w) = [] \<or>
          maxDegreeOfParalellism w \<le> runningPromises (settle k w)) \<and>
         consume v =
           (case outstandingPromises v of
              [] \<Rightarrow> v
            | iLimitedTask # rest \<Rightarrow>
                if runningPromises v < maxDegreeOfParalellism v
                then consume (v\<lparr>outstandingPromises := rest,
                                 runningPromises := runningPromises v + 1,
                                 peakRunning := max (peakRunning v) (runningPromises v + 1),
                                 inflight := inflight v @ [iLimitedTask],
                                 startLog := startLog v @ [promiseId iLimitedTask]\<rparr>)
                else v) \<and>
         (outstandingPromises (consume v) = [] \<or>
          maxDegreeOfParalellism v \<le> runningPromises (consume v))"
proof -
  from find_Some_mem [OF assms(2)] have k: "promiseId t = k" by simp
  have eq: "settle k w = consume (released (reacted t w))"
    using assms by (simp add: settle_eq consumed_eq)
  have upd: "released (reacted t w) =
      w\<lparr>inflight := remove1 t (inflight w), futures := (futures w)(k \<mapsto> factory t),
        runningPromises := runningPromises w - 1, u_size := u_size w - 1\<rparr>"
    using k by (simp add: released_def reacted_def)
  have drained: "outstandingPromises (settle k w) = [] \<or>
      maxDegreeOfParalellism w \<le> runningPromises (settle k w)"
    using drained_consume [of "released (reacted t w)"] by (simp add: eq)
  have loop: "consume v =
      (case outstandingPromises v of
         [] \<Rightarrow> v
       | iLimitedTask # rest \<Rightarrow>
           if runningPromises v < maxDegreeOfParalellism v
           then consume (v\<lparr>outstandingPromises := rest,
                            runningPromises := runningPromises v + 1,
                            peakRunning := max (peakRunning v) (runningPromises v + 1),
                            inflight := inflight v @ [iLimitedTask],
                            startLog := startLog v @ [promiseId iLimitedTask]\<rparr>)
           else v)"
    by (subst consume.simps) (simp add: consume_cond_def consume_body_def split: list.splits)
  from eq upd have first: "settle k w =
      consume (w\<lparr>inflight := remove1 t (inflight w),
                 futures := (futures w)(k \<mapsto> factory t),
                 runningPromises := runningPromises w - 1,
                 u_size := u_size w - 1\<rparr>)"
    by simp
  have last: "outstandingPromises (consume v) = [] \<or>
      maxDegreeOfParalellism v \<le> runningPromises (consume v)"
    using drained_consume [of v] by simp
  show ?thesis by (intro conjI) (rule first, rule drained, rule loop, rule last)
qed

theorem drain_step_of_live_limiter_witness:
  "\<not> u_isDisposed (run (new_Limiter 1 :: (nat, string) Limiter)
       [Queue (Rejected ''boom''), Queue (Resolved 2)]) \<and>
   find (\<lambda>t. promiseId t = 0) (inflight (run (new_Limiter 1 :: (nat, string) Limiter)
       [Queue (Rejected ''boom''), Queue (Resolved 2)])) =
     Some \<lparr>factory = Rejected ''boom'', promiseId = 0\<rparr> \<and>
   runningPromises (run (new_Limiter 1 :: (nat, string) Limiter)
       [Queue (Rejected ''boom''), Queue (Resolved 2)]) = 1 \<and>
   runningPromises (settle 0 (run (new_Limiter 1 :: (nat, string) Limiter)
       [Queue (Rejected ''boom''), Queue (Resolved 2)])) = 1 \<and>
   inflight (settle 0 (run (new_Limiter 1 :: (nat, string) Limiter)
       [Queue (Rejected ''boom''), Queue (Resolved 2)])) =
     [\<lparr>factory = Resolved 2, promiseId = 1\<rparr>] \<and>
   outstandingPromises (settle 0 (run (new_Limiter 1 :: (nat, string) Limiter)
       [Queue (Rejected ''boom''), Queue (Resolved 2)])) = []"
proof -
  let ?w = "run (new_Limiter 1 :: (nat, string) Limiter)
       [Queue (Rejected ''boom''), Queue (Resolved 2)]"
  have live: "\<not> u_isDisposed ?w" by (simp add: run_eval)
  have found: "find (\<lambda>t. promiseId t = 0) (inflight ?w) =
      Some \<lparr>factory = Rejected ''boom'', promiseId = 0\<rparr>"
    by (simp add: run_eval)
  have r: "runningPromises ?w = 1" by (simp add: run_eval)
  from drain_step_of_live_limiter [OF live found, of ?w]
  have eq: "settle 0 ?w =
      consume (?w\<lparr>inflight := remove1 \<lparr>factory = Rejected ''boom'', promiseId = 0\<rparr> (inflight ?w),
                   futures := (futures ?w)(0 \<mapsto> Rejected ''boom''),
                   runningPromises := runningPromises ?w - 1,
                   u_size := u_size ?w - 1\<rparr>)"
    by simp
  have "runningPromises (settle 0 ?w) = 1"
    "inflight (settle 0 ?w) = [\<lparr>factory = Resolved 2, promiseId = 1\<rparr>]"
    "outstandingPromises (settle 0 ?w) = []"
    unfolding eq by (simp_all add: run_eval)
  with live found r show ?thesis by simp
qed

text \<open>
  Claim C3 as written fails on a disposed limiter, where \<^verbatim>\<open>consumed\<close> returns at
  once: the task started before \<^verbatim>\<open>dispose\<close> completes and its promise is
  fulfilled, but the running count stays 1.
\<close>

theorem completion_on_disposed_limiter_counterexample:
  "inflight (run (new_Limiter 1 :: (nat, string) Limiter) [Queue (Resolved 7), Dispose]) =
     [\<lparr>factory = Resolved 7, promiseId = 0\<rparr>] \<and>
   runningPromises (run (new_Limiter 1 :: (nat, string) Limiter)
     [Queue (Resolved 7), Dispose]) = 1 \<and>
   inflight (run (new_Limiter 1 :: (nat, string) Limiter)
     [Queue (Resolved 7), Dispose, Settle 0]) = [] \<and>
   futures (run (new_Limiter 1 :: (nat, string) Limiter)
     [Queue (Resolved 7), Dispose, Settle 0]) 0 = Some (Resolved 7) \<and>
   runningPromises (run (new_Limiter 1 :: (nat, string) Limiter)
     [Queue (Resolved 7), Dispose, Settle 0]) = 1"
  by (simp add: run_eval)

subsection \<open>dispose\<close>

text \<open>
  Claim C4. In any state \<open>w\<close> an execution can reach, \<^verbatim>\<open>dispose\<close> sets the disposed
  flag, empties the pending queue and disposes the emitter \<open>u_onDrained\<close>; it settles no
  promise, so the promises of the dropped tasks are pending, and they stay pending
  whatever happens afterwards. Every later \<^verbatim>\<open>queue\<close> call throws
  \<^verbatim>\<open>Error('Object has been disposed')\<close> and leaves the limiter as it was.
\<close>

theorem dispose_drops_queue_and_refuses_submissions:
  assumes "w = run (new_Limiter n) evs"
  shows "u_isDisposed (dispose w) \<and>
         outstandingPromises (dispose w) = [] \<and>
         disposedEmitter (u_onDrained (dispose w)) \<and>
         futures (dispose w) = futures w \<and>
         (\<forall>t \<in> set (outstandingPromises w).
            futures w (promiseId t) = None \<and>
            futures (run (dispose w) evs') (promiseId t) = None) \<and>
         queue f (run (dispose w) evs') = Inl (Error ''Object has been disposed'') \<and>
         apply_event (run (dispose w) evs') (Queue f) = run (dispose w) evs'"
proof -
  from assms have ord: "order_inv w" and inv: "promise_inv w"
    by (simp_all add: order_inv_run order_inv_new promise_inv_run promise_inv_new)
  have pending: "futures w (promiseId t) = None \<and>
      futures (run (dispose w) evs') (promiseId t) = None"
    if "t \<in> set (outstandingPromises w)" for t
  proof -
    from queued_not_started [OF ord that]
    have k: "promiseId t \<notin> set (startLog w)" "promiseId t < length (submitted w)"
      by simp_all
    from inv k(1) have "futures w (promiseId t) = None"
      by (auto simp: promise_inv_def dom_def)
    moreover have "futures (run (dispose w) evs') (promiseId t) = None"
      using inv k by (intro pending_forever) (simp_all add: promise_inv_dispose)
    ultimately show ?thesis by simp
  qed
  have "u_isDisposed (run (dispose w) evs')" by (simp add: disposed_run)
  then have refused: "queue f (run (dispose w) evs') = Inl (Error ''Object has been disposed'')"
      "apply_event (run (dispose w) evs') (Queue f) = run (dispose w) evs'"
    by (simp_all add: queue_eq apply_event_def disposed_error_def)
  from pending refused show ?thesis by simp
qed

theorem dispose_drops_queue_and_refuses_submissions_witness:
  "\<lparr>factory = Rejected ''boom'', promiseId = 1\<rparr> \<in>
     set (outstandingPromises (run (new_Limiter 1 :: (nat, string) Limiter)
       [Queue (Resolved 5), Queue (Rejected ''boom'')])) \<and>
   futures (run (dispose (run (new_Limiter 1 :: (nat, string) Limiter)
       [Queue (Resolved 5), Queue (Rejected ''boom'')])) [Settle 0, Settle 1]) 1 = None \<and>
   queue (Resolved 7) (run (dispose (run (new_Limiter 1 :: (nat, string) Limiter)
       [Queue (Resolved 5), Queue (Rejected ''boom'')])) [Settle 0, Settle 1]) =
     Inl (Error ''Object has been disposed'')"
proof -
  let ?w = "run (new_Limiter 1 :: (nat, string) Limiter)
       [Queue (Resolved 5), Queue (Rejected ''boom'')]"
  have mem: "\<lparr>factory = Rejected ''boom'', promiseId = 1\<rparr> \<in> set (outstandingPromises ?w)"
    by (simp add: run_eval)
  note inst = dispose_drops_queue_and_refuses_submissions
    [OF refl, of 1 "[Queue (Resolved 5), Queue (Rejected ''boom'')] :: (nat, string) event list"
      "[Settle 0, Settle 1]" "Resolved 7"]
  from inst have
    "\<forall>t \<in> set (outstandingPromises ?w).
       futures (run (dispose ?w) [Settle 0, Settle 1]) (promiseId t) = None"
    by blast
  with mem have "futures (run (dispose ?w) [Settle 0, Settle 1]) 1 = None" by fastforce
  moreover from inst have "queue (Resolved 7) (run (dispose ?w) [Settle 0, Settle 1]) =
     Inl (Error ''Object has been disposed'')" by blast
  ultimately show ?thesis using mem by blast
qed

subsection \<open>Failure isolation\<close>

text \<open>
  Claim C5. Let \<open>t\<close> be a started task in a state \<open>w\<close> that an execution can reach, with
  whatever outcome: \<open>Rejected e\<close> or \<open>Resolved v\<close>. When its promise settles, the promise
  returned for it by \<^verbatim>\<open>queue\<close> settles with exactly that outcome and keeps it in
  every continuation; no other promise changes at that moment; every settled promise
  holds the outcome of the task it was returned for; and unless the limiter has been
  disposed, the head of the pending queue is started, whether \<open>t\<close> failed or not.
  \<open>failure_isolation_scenario\<close> below runs the two-task scenario of the specification
  for every degree of parallelism \<open>n \<ge> 1\<close> and both submission orders.
\<close>

theorem task_outcome_reaches_only_its_own_future:
  assumes "w = run (new_Limiter n) evs" and "t \<in> set (inflight w)"
  shows "futures (run (settle (promiseId t) w) evs') (promiseId t) = Some (factory t) \<and>
         (\<forall>j. j \<noteq> promiseId t \<longrightarrow> futures (settle (promiseId t) w) j = futures w j) \<and>
         (\<forall>j r. futures w j = Some r \<longrightarrow> j < length (submitted w) \<and> r = submitted w ! j) \<and>
         (\<forall>next rest. \<not> u_isDisposed w \<and> outstandingPromises w = next # rest \<longrightarrow>
            outstandingPromises (settle (promiseId t) w) = rest \<and>
            startLog (settle (promiseId t) w) = startLog w @ [promiseId next] \<and>
            next \<in> set (inflight (settle (promiseId t) w)))"
proof -
  let ?k = "promiseId t"
  from assms(1) have inv: "promise_inv w"
    by (simp add: promise_inv_run promise_inv_new)
  from assms(1) have cnt: "bound_inv w" "inflight_inv w" "drained_inv w"
    by (simp_all add: bound_inv_run inflight_inv_run drained_inv_run count_inv_new)
  from assms(2) have "find (\<lambda>t'. promiseId t' = ?k) (inflight w) \<noteq> None"
    by (auto simp: find_None_iff)
  then obtain t' where found: "find (\<lambda>t'. promiseId t' = ?k) (inflight w) = Some t'"
    by blast
  have own: "futures (run (settle ?k w) evs') ?k = Some (factory t)"
    using inv assms(2) by (rule settle_delivers)
  have others: "futures (settle ?k w) j = futures w j" if "j \<noteq> ?k" for j
    using that by (simp add: settle_futures [OF found])
  have settled: "j < length (submitted w) \<and> r = submitted w ! j" if "futures w j = Some r" for j r
    using inv that by (auto simp: promise_inv_def dom_def)
  have drain: "outstandingPromises (settle ?k w) = rest \<and>
      startLog (settle ?k w) = startLog w @ [promiseId next] \<and>
      next \<in> set (inflight (settle ?k w))"
    if live: "\<not> u_isDisposed w" and q: "outstandingPromises w = next # rest" for "next" rest
  proof -
    from assms(2) have "0 < length (inflight w)" by (rule length_pos_if_in_set)
    then have "1 \<le> int (length (inflight w))" by linarith
    with cnt live q have r: "runningPromises w = maxDegreeOfParalellism w"
      by (simp add: bound_inv_def inflight_inv_def drained_inv_def max_def split: if_splits)
    have eq: "settle ?k w = consume (released (reacted t' w))"
      using found live by (simp add: settle_eq consumed_eq)
    have one: "drain_count (released (reacted t' w)) = 1"
      using r q by (simp add: drain_count_def)
    show ?thesis
      by (simp add: eq consume_queue consume_startLog consume_inflight one q)
  qed
  from own others settled drain show ?thesis by blast
qed

theorem task_outcome_reaches_only_its_own_future_witness:
  "\<lparr>factory = Resolved 5, promiseId = 1\<rparr> \<in>
     set (inflight (run (new_Limiter 1 :: (nat, string) Limiter)
       [Queue (Rejected ''boom''), Queue (Resolved 5), Queue (Resolved 7), Settle 0])) \<and>
   futures (run (new_Limiter 1 :: (nat, string) Limiter)
       [Queue (Rejected ''boom''), Queue (Resolved 5), Queue (Resolved 7), Settle 0]) 0 =
     Some (Rejected ''boom'') \<and>
   Rejected ''boom'' = submitted (run (new_Limiter 1 :: (nat, string) Limiter)
       [Queue (Rejected ''boom''), Queue (Resolved 5), Queue (Resolved 7), Settle 0]) ! 0 \<and>
   futures (run (settle 1 (run (new_Limiter 1 :: (nat, string) Limiter)
       [Queue (Rejected ''boom''), Queue (Resolved 5), Queue (Resolved 7), Settle 0]))
       [Settle 2]) 1 = Some (Resolved 5) \<and>
   futures (settle 1 (run (new_Limiter 1 :: (nat, string) Limiter)
       [Queue (Rejected ''boom''), Queue (Resolved 5), Queue (Resolved 7), Settle 0])) 0 =
     Some (Rejected ''boom'') \<and>
   \<not> u_isDisposed (run (new_Limiter 1 :: (nat, string) Limiter)
       [Queue (Rejected ''boom''), Queue (Resolved 5), Queue (Resolved 7), Settle 0]) \<and>
   outstandingPromises (run (new_Limiter 1 :: (nat, string) Limiter)
       [Queue (Rejected ''boom''), Queue (Resolved 5), Queue (Resolved 7), Settle 0]) =
     [\<lparr>factory = Resolved 7, promiseId = 2\<rparr>] \<and>
   outstandingPromises (settle 1 (run (new_Limiter 1 :: (nat, string) Limiter)
       [Queue (Rejected ''boom''), Queue (Resolved 5), Queue (Resolved 7), Settle 0])) = [] \<and>
   \<lparr>factory = Resolved 7, promiseId = 2\<rparr> \<in>
     set (inflight (settle 1 (run (new_Limiter 1 :: (nat, string) Limiter)
       [Queue (Rejected ''boom''), Queue (Resolved 5), Queue (Resolved 7), Settle 0])))"
proof -
  let ?w = "run (new_Limiter 1 :: (nat, string) Limiter)
       [Queue (Rejected ''boom''), Queue (Resolved 5), Queue (Resolved 7), Settle 0]"
  have flying: "\<lparr>factory = Resolved 5, promiseId = 1\<rparr> \<in> set (inflight ?w)"
    by (simp add: run_eval)
  have failed: "futures ?w 0 = Some (Rejected ''boom'')" by (simp add: run_eval)
  have live: "\<not> u_isDisposed ?w" by (simp add: run_eval)
  have q: "outstandingPromises ?w = [\<lparr>factory = Resolved 7, promiseId = 2\<rparr>]"
    by (simp add: run_eval)
  note inst = task_outcome_reaches_only_its_own_future [OF refl flying, of "[Settle 2]"]
  from inst have own: "futures (run (settle 1 ?w) [Settle 2]) 1 = Some (Resolved 5)"
    by simp
  from inst have "futures (settle 1 ?w) 0 = futures ?w 0" by simp
  with failed have other: "futures (settle 1 ?w) 0 = Some (Rejected ''boom'')" by simp
  from inst failed have mine: "Rejected ''boom'' = submitted ?w ! 0" by blast
  from inst live q have drained: "outstandingPromises (settle 1 ?w) = [] \<and>
      \<lparr>factory = Resolved 7, promiseId = 2\<rparr> \<in> set (inflight (settle 1 ?w))"
    by simp
  from flying failed mine own other live q drained show ?thesis by blast
qed

lemma failure_isolation_scenario:
  assumes "1 \<le> n"
  shows "futures (run (new_Limiter n)
            [Queue (Rejected e), Queue (Resolved v), Settle 0, Settle 1]) 0 = Some (Rejected e) \<and>
         futures (run (new_Limiter n)
            [Queue (Rejected e), Queue (Resolved v), Settle 0, Settle 1]) 1 = Some (Resolved v) \<and>
         futures (run (new_Limiter n)
            [Queue (Resolved v), Queue (Rejected e), Settle 0, Settle 1]) 0 = Some (Resolved v) \<and>
         futures (run (new_Limiter n)
            [Queue (Resolved v), Queue (Rejected e), Settle 0, Settle 1]) 1 = Some (Rejected e)"
proof (cases "n = 1")
  case True
  then show ?thesis by (simp add: run_eval)
next
  case False
  with assms have "2 \<le> n" by simp
  then have "nat n = Suc (Suc (nat (n - 2)))" by simp
  then show ?thesis using \<open>2 \<le> n\<close> by (simp add: run_eval)
qed

subsection \<open>clear\<close>

text \<open>
  Claim C6. A \<^verbatim>\<open>clear\<close> that returns (the limiter is not disposed) empties the
  pending queue and settles no promise: the promises of the dropped tasks are pending and
  stay pending whatever happens afterwards. The running tasks are untouched: the same
  tasks are in flight, the running count is unchanged (and is now the size), and when the
  promise of any of them settles, the promise returned for it settles with that task's
  own outcome and keeps it.
\<close>

theorem clear_drops_queue_and_spares_running_tasks:
  assumes "w = run (new_Limiter n) evs" and "clear w = Inr c"
  shows "outstandingPromises c = [] \<and>
         futures c = futures w \<and>
         inflight c = inflight w \<and>
         runningPromises c = runningPromises w \<and>
         size_get c = int (length (inflight w)) \<and>
         (\<forall>t \<in> set (outstandingPromises w).
            futures w (promiseId t) = None \<and>
            futures (run c evs') (promiseId t) = None) \<and>
         (\<forall>t \<in> set (inflight w).
            futures (run (settle (promiseId t) c) evs') (promiseId t) = Some (factory t))"
proof -
  from assms(1) have ord: "order_inv w" and inv: "promise_inv w"
    by (simp_all add: order_inv_run order_inv_new promise_inv_run promise_inv_new)
  from assms(1) have "inflight_inv w" by (simp add: inflight_inv_run count_inv_new)
  from assms(2) have live: "\<not> u_isDisposed w"
    and c: "c = w\<lparr>outstandingPromises := [], u_size := runningPromises w\<rparr>"
    by (auto simp: clear_def split: if_splits)
  from inv have inv_c: "promise_inv c" unfolding c by (rule promise_inv_clear)
  have fields: "outstandingPromises c = []" "futures c = futures w" "inflight c = inflight w"
      "runningPromises c = runningPromises w" "size_get c = int (length (inflight w))"
    using live \<open>inflight_inv w\<close> by (simp_all add: c size_get_def inflight_inv_def)
  have pending: "futures w (promiseId t) = None \<and> futures (run c evs') (promiseId t) = None"
    if "t \<in> set (outstandingPromises w)" for t
  proof -
    from queued_not_started [OF ord that]
    have k: "promiseId t \<notin> set (startLog w)" "promiseId t < length (submitted w)"
      by simp_all
    from inv k(1) have "futures w (promiseId t) = None"
      by (auto simp: promise_inv_def dom_def)
    moreover have "futures (run c evs') (promiseId t) = None"
      using inv_c k by (intro pending_forever) (simp_all add: c timeline_def)
    ultimately show ?thesis by simp
  qed
  have running: "futures (run (settle (promiseId t) c) evs') (promiseId t) = Some (factory t)"
    if "t \<in> set (inflight w)" for t
    using inv_c that by (intro settle_delivers) (simp_all add: fields)
  from fields pending running show ?thesis by simp
qed

theorem clear_drops_queue_and_spares_running_tasks_witness:
  "clear (run (new_Limiter 1 :: (nat, string) Limiter)
       [Queue (Resolved 5), Queue (Rejected ''boom'')]) =
     Inr (run (new_Limiter 1 :: (nat, string) Limiter)
       [Queue (Resolved 5), Queue (Rejected ''boom''), Clear]) \<and>
   \<lparr>factory = Rejected ''boom'', promiseId = 1\<rparr> \<in>
     set (outstandingPromises (run (new_Limiter 1 :: (nat, string) Limiter)
       [Queue (Resolved 5), Queue (Rejected ''boom'')])) \<and>
   \<lparr>factory = Resolved 5, promiseId = 0\<rparr> \<in>
     set (inflight (run (new_Limiter 1 :: (nat, string) Limiter)
       [Queue (Resolved 5), Queue (Rejected ''boom'')])) \<and>
   futures (run (run (new_Limiter 1 :: (nat, string) Limiter)
       [Queue (Resolved 5), Queue (Rejected ''boom''), Clear]) [Settle 1, Settle 0]) 1 = None \<and>
   futures (run (settle 0 (run (new_Limiter 1 :: (nat, string) Limiter)
       [Queue (Resolved 5), Queue (Rejected ''boom''), Clear])) [Settle 1]) 0 =
     Some (Resolved 5)"
proof -
  let ?evs = "[Queue (Resolved 5), Queue (Rejected ''boom'')] :: (nat, string) event list"
  let ?w = "run (new_Limiter 1 :: (nat, string) Limiter) ?evs"
  let ?c = "run (new_Limiter 1 :: (nat, string) Limiter)
       [Queue (Resolved 5), Queue (Rejected ''boom''), Clear]"
  have cleared: "clear ?w = Inr ?c" by (simp add: run_eval)
  have queued: "\<lparr>factory = Rejected ''boom'', promiseId = 1\<rparr> \<in> set (outstandingPromises ?w)"
    by (simp add: run_eval)
  have flying: "\<lparr>factory = Resolved 5, promiseId = 0\<rparr> \<in> set (inflight ?w)"
    by (simp add: run_eval)
  note inst = clear_drops_queue_and_spares_running_tasks [OF refl cleared]
  from inst [of "[Settle 1, Settle 0]"] queued
  have dropped: "futures (run ?c [Settle 1, Settle 0]) 1 = None" by fastforce
  from inst [of "[Settle 1]"] flying
  have kept: "futures (run (settle 0 ?c) [Settle 1]) 0 = Some (Resolved 5)" by fastforce
  from cleared queued flying dropped kept show ?thesis by blast
qed

subsection \<open>The size getter\<close>

text \<open>
  Claim C7. As long as the limiter has not been disposed, the \<^verbatim>\<open>size\<close> getter
  returns the number of queued tasks plus the number of running tasks, after every event
  of every execution; the counter \<open>runningPromises\<close> is the number of tasks in flight.
\<close>

theorem size_counts_queued_and_running:
  assumes "\<not> u_isDisposed (run (new_Limiter n) evs)"
  shows "size_get (run (new_Limiter n) evs) =
           int (length (outstandingPromises (run (new_Limiter n) evs))) +
           int (length (inflight (run (new_Limiter n) evs))) \<and>
         runningPromises (run (new_Limiter n) evs) =
           int (length (inflight (run (new_Limiter n) evs)))"
proof -
  let ?w = "run (new_Limiter n) evs"
  have "size_inv (new_Limiter n)" by (simp add: size_inv_def new_Limiter_def)
  then have s: "size_inv ?w" by (rule size_inv_run)
  have "inflight_inv (new_Limiter n)" by (simp add: inflight_inv_def new_Limiter_def)
  then have i: "inflight_inv ?w" by (rule inflight_inv_run)
  from s i assms show ?thesis by (simp add: size_inv_def inflight_inv_def size_get_def)
qed

theorem size_counts_queued_and_running_witness:
  "\<not> u_isDisposed (run (new_Limiter 1 :: (nat, string) Limiter)
       [Queue (Resolved 1), Queue (Rejected ''boom''), Queue (Resolved 3)]) \<and>
   size_get (run (new_Limiter 1 :: (nat, string) Limiter)
       [Queue (Resolved 1), Queue (Rejected ''boom''), Queue (Resolved 3)]) =
     int (length (outstandingPromises (run (new_Limiter 1 :: (nat, string) Limiter)
       [Queue (Resolved 1), Queue (Rejected ''boom''), Queue (Resolved 3)]))) +
     int (length (inflight (run (new_Limiter 1 :: (nat, string) Limiter)
       [Queue (Resolved 1), Queue (Rejected ''boom''), Queue (Resolved 3)]))) \<and>
   runningPromises (run (new_Limiter 1 :: (nat, string) Limiter)
       [Queue (Resolved 1), Queue (Rejected ''boom''), Queue (Resolved 3)]) =
     int (length (inflight (run (new_Limiter 1 :: (nat, string) Limiter)
       [Queue (Resolved 1), Queue (Rejected ''boom''), Queue (Resolved 3)])))"
proof -
  have live: "\<not> u_isDisposed (run (new_Limiter 1 :: (nat, string) Limiter)
       [Queue (Resolved 1), Queue (Rejected ''boom''), Queue (Resolved 3)])"
    by (simp add: run_Cons run_Nil apply_event_def queue_eq new_Limiter_def pushed_def)
  from live size_counts_queued_and_running [OF live] show ?thesis by simp
qed

subsection \<open>The drained event\<close>

text \<open>
  Claim C8. No event is ever fired on \<open>u_onDrained\<close>: for every degree of parallelism and
  every sequence of \<^verbatim>\<open>queue\<close>, \<^verbatim>\<open>clear\<close> and \<^verbatim>\<open>dispose\<close> calls
  and task completions, the emitter has fired zero times.
\<close>

theorem onDrained_never_fires:
  "fired (u_onDrained (run (new_Limiter n) evs)) = 0"
  by (simp add: fired_run new_Limiter_def)

subsection \<open>clear after dispose\<close>

text \<open>
  Claim C9. Once \<^verbatim>\<open>dispose\<close> has been called, \<^verbatim>\<open>clear\<close> throws
  \<^verbatim>\<open>Error('Object has been disposed')\<close>, whatever happened before the disposal
  and whatever happened after it.
\<close>

theorem clear_after_dispose_throws:
  "clear (run (dispose (run (new_Limiter n) evs)) evs') =
     Inl (Error ''Object has been disposed'')"
proof -
  have "u_isDisposed (dispose (run (new_Limiter n) evs))" by (simp add: dispose_def)
  then have "u_isDisposed (run (dispose (run (new_Limiter n) evs)) evs')"
    by (rule disposed_run)
  then show ?thesis by (simp add: clear_def disposed_error_def)
qed

subsection \<open>A degree of parallelism that is not positive\<close>

text \<open>
  Claim C10, amended: the acceptance holds while the limiter has not been disposed. The
  constructor stores any \<open>n\<close>. With \<open>n \<le> 0\<close>, after every event of every execution the
  running count is 0, no increment was ever made, no task has been started or is in
  flight, and no promise returned by \<^verbatim>\<open>queue\<close> is settled; and unless the limiter
  has been disposed, \<^verbatim>\<open>queue\<close> accepts a task: it returns a new promise, adds one
  to the size and appends the task to the queue without starting it.
\<close>

theorem nonpositive_degree_never_starts_a_task:
  assumes "n \<le> 0"
  shows "runningPromises (run (new_Limiter n) evs) = 0 \<and>
         peakRunning (run (new_Limiter n) evs) = 0 \<and>
         startLog (run (new_Limiter n) evs) = [] \<and>
         inflight (run (new_Limiter n) evs) = [] \<and>
         futures (run (new_Limiter n) evs) k = None \<and>
         (\<not> u_isDisposed (run (new_Limiter n) evs) \<longrightarrow>
            (\<exists>w'. queue f (run (new_Limiter n) evs) =
                     Inr (length (submitted (run (new_Limiter n) evs)), w') \<and>
                   size_get w' = size_get (run (new_Limiter n) evs) + 1 \<and>
                   outstandingPromises w' =
                     outstandingPromises (run (new_Limiter n) evs) @
                       [\<lparr>factory = f,
                         promiseId = length (submitted (run (new_Limiter n) evs))\<rparr>] \<and>
                   runningPromises w' = 0 \<and> inflight w' = []))"
proof -
  let ?w = "run (new_Limiter n) evs"
  from assms have "idle_inv (new_Limiter n)" by (simp add: idle_inv_def new_Limiter_def)
  then have idle: "idle_inv ?w" by (rule idle_inv_run)
  then have none: "futures ?w k = None" by (auto simp: idle_inv_def dom_def)
  have acc: "\<exists>w'. queue f ?w = Inr (length (submitted ?w), w') \<and>
      size_get w' = size_get ?w + 1 \<and>
      outstandingPromises w' =
        outstandingPromises ?w @ [\<lparr>factory = f, promiseId = length (submitted ?w)\<rparr>] \<and>
      runningPromises w' = 0 \<and> inflight w' = []"
    if "\<not> u_isDisposed ?w"
    using that idle
    by (simp add: queue_eq size_get_def idle_inv_def consume_queue consume_running
        consume_inflight drain_count_def)
  from idle none acc show ?thesis by (simp add: idle_inv_def)
qed

theorem nonpositive_degree_never_starts_a_task_witness:
  "(0::int) \<le> 0 \<and>
   \<not> u_isDisposed (run (new_Limiter 0 :: (nat, string) Limiter) [Queue (Resolved 5)]) \<and>
   runningPromises (run (new_Limiter 0 :: (nat, string) Limiter) [Queue (Resolved 5)]) = 0 \<and>
   startLog (run (new_Limiter 0 :: (nat, string) Limiter) [Queue (Resolved 5)]) = [] \<and>
   futures (run (new_Limiter 0 :: (nat, string) Limiter) [Queue (Resolved 5)]) 0 = None \<and>
   (\<exists>w'. queue (Resolved 7)
            (run (new_Limiter 0 :: (nat, string) Limiter) [Queue (Resolved 5)]) = Inr (1, w') \<and>
          size_get w' = 2)"
proof -
  let ?w = "run (new_Limiter 0 :: (nat, string) Limiter) [Queue (Resolved 5)]"
  have live: "\<not> u_isDisposed ?w" by (simp add: run_eval)
  have len: "length (submitted ?w) = 1" by (simp add: run_eval)
  have sz: "size_get ?w = 1" by (simp add: run_eval size_get_def)
  have z: "(0::int) \<le> 0" by simp
  note inst = nonpositive_degree_never_starts_a_task
    [OF z, of "[Queue (Resolved 5)] :: (nat, string) event list" 0 "Resolved 7"]
  from inst have a: "runningPromises ?w = 0" "startLog ?w = []" "futures ?w 0 = None"
    by blast+
  from inst live obtain w' where "queue (Resolved 7) ?w = Inr (length (submitted ?w), w')"
    "size_get w' = size_get ?w + 1" by blast
  then have "\<exists>w'. queue (Resolved 7) ?w = Inr (1, w') \<and> size_get w' = 2"
    by (simp add: len sz)
  with z live a show ?thesis by blast
qed

text \<open>
  Claim C10 as written fails once the limiter has been disposed: \<^verbatim>\<open>queue\<close> throws
  whatever the degree of parallelism is.
\<close>

theorem nonpositive_degree_disposed_counterexample:
  "queue (Resolved 7) (run (new_Limiter 0 :: (nat, string) Limiter) [Dispose]) =
     Inl (Error ''Object has been disposed'')"
  by (simp add: run_eval disposed_error_def)

end
